theory Spec2Isabelle
  imports Complex_Main "HOL-Library.Sublist" "HOL-Library.Log_Nat"
begin

section \<open>Python values used by the notebooks\<close>

text \<open>
  A Python \<open>str\<close> is modelled as a \<^typ>\<open>string\<close> holding its UTF-8 bytes. Both
  separators the notebooks split on (\<open>"<ANSWER>: "\<close> and \<open>"\n"\<close>) are ASCII, and an ASCII
  byte never occurs inside a multi-byte UTF-8 sequence, so splitting the bytes cuts the
  text at the same places as splitting the code points. A value that may be \<open>None\<close> is an
  \<^typ>\<open>string option\<close>. Every exception the modelled code can raise is a value of
  \<open>py_exception\<close>, returned as \<open>Inl\<close>: the four that the built-in operations used here
  raise, and \<open>RemoteError\<close> for what a call to a remote service or to the tokenizer
  raises. All of them are instances of Python's \<open>Exception\<close>.
\<close>

datatype py_exception =
    ValueError string
  | IndexError string
  | OverflowError string
  | ZeroDivisionError string
  | RemoteError string

text \<open>Truthiness of an optional string, as tested by \<open>if x:\<close>: \<open>None\<close> and \<open>""\<close> are false.\<close>

fun truthy :: "string option \<Rightarrow> bool" where
  "truthy None = False"
| "truthy (Some s) = (s \<noteq> [])"

definition truthy_str :: "string \<Rightarrow> bool" where
  "truthy_str s = (s \<noteq> [])"

subsection \<open>\<open>str.split(sep)\<close>, \<open>sep.join(parts)\<close>, \<open>xs[-1]\<close>, \<open>xs[:-1]\<close>\<close>

text \<open>
  \<open>s.split(sep)\<close> scans \<open>s\<close> from the left. \<open>cur\<close> holds, reversed, the characters of the
  piece being read. Where \<open>sep\<close> starts at the scan position the piece is closed and the
  scan jumps behind the separator, otherwise the character joins the piece. The end of
  the text closes the last piece, so the result always has at least one piece.
  For a non-empty \<open>sep\<close>, \<open>drop (length sep - 1) cs\<close> is \<open>c # cs\<close> without its first
  \<open>length sep\<close> characters.
\<close>

fun split_from :: "'a list \<Rightarrow> 'a list \<Rightarrow> 'a list \<Rightarrow> 'a list list" where
  "split_from sep cur [] = [rev cur]"
| "split_from sep cur (c # cs) =
     (if prefix sep (c # cs)
      then rev cur # split_from sep [] (drop (length sep - 1) cs)
      else split_from sep (c # cur) cs)"

definition split_all :: "'a list \<Rightarrow> 'a list \<Rightarrow> 'a list list" where
  "split_all sep s = split_from sep [] s"

text \<open>Python raises \<open>ValueError\<close> for an empty separator.\<close>

definition str_split :: "string \<Rightarrow> string \<Rightarrow> py_exception + string list" where
  "str_split s sep =
     (if sep = [] then Inl (ValueError ''empty separator'')
      else Inr (split_all sep s))"

fun join :: "'a list \<Rightarrow> 'a list list \<Rightarrow> 'a list" where
  "join sep [] = []"
| "join sep [p] = p"
| "join sep (p # q # ps) = p @ sep @ join sep (q # ps)"

text \<open>\<open>xs[-1]\<close> raises \<open>IndexError\<close> on an empty list; \<open>xs[:-1]\<close> never raises.\<close>

definition index_last :: "'a list \<Rightarrow> py_exception + 'a" where
  "index_last xs =
     (case xs of [] \<Rightarrow> Inl (IndexError ''list index out of range'')
      | _ # _ \<Rightarrow> Inr (last xs))"

definition slice_butlast :: "'a list \<Rightarrow> 'a list" where
  "slice_butlast xs = butlast xs"

section \<open>Evaluation notebook: cleaning the answers\<close>

definition ANSWER_MARKER :: string where
  "ANSWER_MARKER = ''<ANSWER>: ''"

definition NEWLINE :: string where
  "NEWLINE = [CHR 0x0A]"

text \<open>
  \<^verbatim>\<open>
  def extract_final_answer(cot_answer: str) -> str:
      if cot_answer:
          return cot_answer.split("<ANSWER>: ")[-1]
      return None
  \<close>
\<close>

definition extract_final_answer :: "string option \<Rightarrow> py_exception + string option" where
  "extract_final_answer cot_answer =
     (case cot_answer of
        None \<Rightarrow> Inr None
      | Some s \<Rightarrow>
          if truthy (Some s)
          then (case str_split s ANSWER_MARKER of
                  Inl e \<Rightarrow> Inl e
                | Inr parts \<Rightarrow>
                    (case index_last parts of Inl e \<Rightarrow> Inl e | Inr a \<Rightarrow> Inr (Some a)))
          else Inr None)"

text \<open>
  \<^verbatim>\<open>
  def extract_context(instruction: str) -> str:
      return "\n".join(instruction.split("\n")[:-1])
  \<close>
\<close>

definition extract_context :: "string \<Rightarrow> py_exception + string" where
  "extract_context instruction =
     (case str_split instruction NEWLINE of
        Inl e \<Rightarrow> Inl e
      | Inr parts \<Rightarrow> Inr (join NEWLINE (slice_butlast parts)))"

text \<open>The text of the last line of a string: what follows its last newline character.\<close>

definition last_line :: "string \<Rightarrow> string" where
  "last_line s = rev (takeWhile (\<lambda>c. c \<noteq> CHR 0x0A) (rev s))"

section \<open>Evaluation notebook: inference over the test set\<close>

text \<open>
  The chat-completion endpoint is outside the program. A client is the function that
  answers one call: it returns the response or raises. The request carries the message
  list, the deployment name (\<open>os.getenv\<close> may give \<open>None\<close>) and the literal temperature
  \<open>0.3\<close>, kept as its text since it is only passed on. A response holds its choices, each
  with the content of its message, which the API allows to be null.
\<close>

record chat_request =
  req_messages :: "(string \<times> string) list list"
  req_model :: "string option"
  req_temperature :: string

record chat_choice =
  message_content :: "string option"

record chat_response =
  choices :: "chat_choice list"

type_synonym chat_client = "chat_request \<Rightarrow> py_exception + chat_response"

fun exception_text :: "py_exception \<Rightarrow> string" where
  "exception_text (ValueError m) = m"
| "exception_text (IndexError m) = m"
| "exception_text (OverflowError m) = m"
| "exception_text (ZeroDivisionError m) = m"
| "exception_text (RemoteError m) = m"

text \<open>
  \<^verbatim>\<open>
  def get_model_completions(client, prompt, deployment):
      messages = [{'role':'user','content':prompt}]
      try:
          response = client.chat.completions.create(
              messages=messages, model=deployment, temperature=0.3)
          return response.choices[0].message.content
      except Exception as e:
          print(e)
          return None
  \<close>
  The result is the returned value together with the lines printed. Both the call and
  the indexing \<open>choices[0]\<close> are inside the \<open>try\<close>.
\<close>

definition completion_request :: "string \<Rightarrow> string option \<Rightarrow> chat_request" where
  "completion_request prompt deployment =
     \<lparr>req_messages = [[(''role'', ''user''), (''content'', prompt)]],
      req_model = deployment, req_temperature = ''0.3''\<rparr>"

definition get_model_completions ::
  "chat_client \<Rightarrow> string \<Rightarrow> string option \<Rightarrow> string option \<times> string list" where
  "get_model_completions client prompt deployment =
     (case client (completion_request prompt deployment) of
        Inl e \<Rightarrow> (None, [exception_text e])
      | Inr response \<Rightarrow>
          (case choices response of
             [] \<Rightarrow> (None, [exception_text (IndexError ''list index out of range'')])
           | ch # _ \<Rightarrow> (message_content ch, [])))"

text \<open>
  \<^verbatim>\<open>
  test_df['baseline_model_response'] = test_df.progress_apply(
      lambda x: get_model_completions(baseline_client, x.instruction,
                                      BASELINE_OPENAI_DEPLOYMENT), axis=1)
  test_df['finetuned_model_response'] = test_df.progress_apply(
      lambda x: get_model_completions(finetuned_client, x.instruction,
                                      FINETUNED_OPENAI_DEPLOYMENT), axis=1)
  \<close>
  The rows are visited in order, one call each. \<open>service k\<close> is the client as it answers
  the \<open>k\<close>-th call made through it, so that the same prompt may succeed in one row and fail
  in another. The table is a list of rows; each of the two statements adds the column
  that \<open>progress_apply\<close> returns, \<open>baseline_model_response\<close> and
  \<open>finetuned_model_response\<close>.
\<close>

record test_row =
  instruction :: string
  cot_answer :: "string option"
  question :: string

record inferred_row = test_row +
  baseline_model_response :: "string option"
  finetuned_model_response :: "string option"

fun progress_apply ::
  "(nat \<Rightarrow> chat_client) \<Rightarrow> nat \<Rightarrow> string option \<Rightarrow> test_row list
     \<Rightarrow> string option list \<times> string list" where
  "progress_apply service k deployment [] = ([], [])"
| "progress_apply service k deployment (x # rows) =
     (let (r, out) = get_model_completions (service k) (instruction x) deployment;
          (rs, outs) = progress_apply service (Suc k) deployment rows
      in (r # rs, out @ outs))"

text \<open>\<open>Series.apply(f)\<close> calls \<open>f\<close> on each element in order; an exception in \<open>f\<close> ends it.\<close>

fun series_apply :: "('a \<Rightarrow> py_exception + 'b) \<Rightarrow> 'a list \<Rightarrow> py_exception + 'b list" where
  "series_apply f [] = Inr []"
| "series_apply f (x # xs) =
     (case f x of
        Inl e \<Rightarrow> Inl e
      | Inr y \<Rightarrow> (case series_apply f xs of Inl e \<Rightarrow> Inl e | Inr ys \<Rightarrow> Inr (y # ys)))"

text \<open>
  \<^verbatim>\<open>
  test_df['gold_final_answer'] = test_df.cot_answer.apply(extract_final_answer)
  test_df['context'] = test_df.instruction.apply(extract_context)
  test_df['baseline_final_answer'] = test_df.baseline_model_response.apply(extract_final_answer)
  test_df['finetuned_final_answer'] = test_df.finetuned_model_response.apply(extract_final_answer)
  \<close>
  Cleaning adds four columns, computed one column after the other. Of the resulting
  table the rows keep the columns that the evaluation tables select.
\<close>

record cleaned_row =
  row_question :: string
  gold_final_answer :: "string option"
  row_context :: string
  baseline_final_answer :: "string option"
  finetuned_final_answer :: "string option"

definition clean_answers :: "inferred_row list \<Rightarrow> py_exception + cleaned_row list" where
  "clean_answers test_df =
     (case series_apply extract_final_answer (map cot_answer test_df) of
        Inl e \<Rightarrow> Inl e
      | Inr gold \<Rightarrow>
     (case series_apply extract_context (map instruction test_df) of
        Inl e \<Rightarrow> Inl e
      | Inr ctx \<Rightarrow>
     (case series_apply extract_final_answer (map baseline_model_response test_df) of
        Inl e \<Rightarrow> Inl e
      | Inr base \<Rightarrow>
     (case series_apply extract_final_answer (map finetuned_model_response test_df) of
        Inl e \<Rightarrow> Inl e
      | Inr tuned \<Rightarrow>
          Inr (map (\<lambda>(x, g, c, b, f).
                     \<lparr>row_question = question x, gold_final_answer = g, row_context = c,
                      baseline_final_answer = b, finetuned_final_answer = f\<rparr>)
                 (zip test_df (zip gold (zip ctx (zip base tuned)))))))))"

text \<open>
  \<^verbatim>\<open>
  baseline_df = test_df[['baseline_final_answer', 'context', 'gold_final_answer', 'question']]
  baseline_df.rename(columns={'baseline_final_answer':'answer',
                              'gold_final_answer':'ground_truth',
                              'context':'contexts'}, inplace=True)
  baseline_df['contexts'] = baseline_df['contexts'].apply(lambda x: [x] if x else [])
  \<close>
  and the same for \<open>finetuned_df\<close> with \<open>finetuned_final_answer\<close>.
\<close>

record eval_row =
  answer :: "string option"
  contexts :: "string list"
  ground_truth :: "string option"
  eval_question :: string

definition wrap_context :: "string \<Rightarrow> string list" where
  "wrap_context x = (if truthy_str x then [x] else [])"

definition baseline_df :: "cleaned_row list \<Rightarrow> eval_row list" where
  "baseline_df test_df =
     map (\<lambda>r. \<lparr>answer = baseline_final_answer r, contexts = wrap_context (row_context r),
                ground_truth = gold_final_answer r, eval_question = row_question r\<rparr>) test_df"

definition finetuned_df :: "cleaned_row list \<Rightarrow> eval_row list" where
  "finetuned_df test_df =
     map (\<lambda>r. \<lparr>answer = finetuned_final_answer r, contexts = wrap_context (row_context r),
                ground_truth = gold_final_answer r, eval_question = row_question r\<rparr>) test_df"

section \<open>Fine-tuning notebook: cost estimate\<close>

text \<open>
  \<^verbatim>\<open>
  def num_tokens_from_messages(messages, tokens_per_message=3, tokens_per_name=1):
      num_tokens = 0
      for message in messages:
          num_tokens += tokens_per_message
          for key, value in message.items():
              num_tokens += len(encoding.encode(value))
              if key == "role":
                  num_tokens += tokens_per_name
      num_tokens += 3
      return num_tokens
  \<close>
  A message is a dict, modelled by its items in insertion order (the keys of a dict are
  distinct). The tokenizer \<open>encoding.encode\<close> is a library function, taken as the
  parameter \<open>encode\<close>; it may raise, and nothing here catches that. Python integers are
  unbounded.
\<close>

type_synonym message = "(string \<times> string) list"

fun count_items :: "(string \<Rightarrow> py_exception + 'tok list) \<Rightarrow> int \<Rightarrow> int \<Rightarrow> message
     \<Rightarrow> py_exception + int" where
  "count_items encode tokens_per_name num_tokens [] = Inr num_tokens"
| "count_items encode tokens_per_name num_tokens ((key, val) # items) =
     (case encode val of
        Inl e \<Rightarrow> Inl e
      | Inr toks \<Rightarrow>
          count_items encode tokens_per_name
            (if key = ''role''
             then num_tokens + int (length toks) + tokens_per_name
             else num_tokens + int (length toks))
            items)"

fun count_messages :: "(string \<Rightarrow> py_exception + 'tok list) \<Rightarrow> int \<Rightarrow> int \<Rightarrow> int
     \<Rightarrow> message list \<Rightarrow> py_exception + int" where
  "count_messages encode tokens_per_message tokens_per_name num_tokens [] = Inr num_tokens"
| "count_messages encode tokens_per_message tokens_per_name num_tokens (m # messages) =
     (case count_items encode tokens_per_name (num_tokens + tokens_per_message) m of
        Inl e \<Rightarrow> Inl e
      | Inr n \<Rightarrow> count_messages encode tokens_per_message tokens_per_name n messages)"

definition num_tokens_from_messages ::
  "(string \<Rightarrow> py_exception + 'tok list) \<Rightarrow> message list \<Rightarrow> int \<Rightarrow> int
     \<Rightarrow> py_exception + int" where
  "num_tokens_from_messages encode messages tokens_per_message tokens_per_name =
     (case count_messages encode tokens_per_message tokens_per_name 0 messages of
        Inl e \<Rightarrow> Inl e
      | Inr num_tokens \<Rightarrow> Inr (num_tokens + 3))"

subsection \<open>Python floats\<close>
















section \<open>Fine-tuning notebook: monitoring the job\<close>

text \<open>
  \<^verbatim>\<open>
  response = client.fine_tuning.jobs.retrieve(job_id)
  status = response.status
  while status not in ["succeeded", "failed"]:
      time.sleep(10)
      response = client.fine_tuning.jobs.retrieve(job_id)
      ...
      status = response.status
      ...
  \<close>
  The job runs in the remote service: \<open>retrieve k\<close> is what the \<open>k\<close>-th status retrieval
  of the run gives, a status or an exception. The run is recorded as the list of its
  retrievals and sleeps (in seconds); the lines printed in the loop body do not touch
  \<open>status\<close> and are left out. The loop may run forever, so the result is an option:
  \<open>None\<close> is a run that never leaves the loop, \<open>Some (Inl e, trace)\<close> a run ended by the
  exception \<open>e\<close>, \<open>Some (Inr status, trace)\<close> a run that left the loop with \<open>status\<close>.
\<close>

datatype event = Retrieve | Sleep nat

type_synonym job_service = "nat \<Rightarrow> py_exception + string"

definition terminal_statuses :: "string list" where
  "terminal_statuses = [''succeeded'', ''failed'']"

partial_function (option) poll_loop ::
  "job_service \<Rightarrow> nat \<Rightarrow> string \<Rightarrow> event list
     \<Rightarrow> ((py_exception + string) \<times> event list) option" where
  "poll_loop retrieve k status trace =
     (if status \<notin> set terminal_statuses
      then (case retrieve k of
              Inl e \<Rightarrow> Some (Inl e, trace @ [Sleep 10, Retrieve])
            | Inr status' \<Rightarrow>
                poll_loop retrieve (Suc k) status' (trace @ [Sleep 10, Retrieve]))
      else Some (Inr status, trace))"

declare poll_loop.simps [code]

definition monitor_job :: "job_service \<Rightarrow> ((py_exception + string) \<times> event list) option" where
  "monitor_job retrieve =
     (case retrieve 0 of
        Inl e \<Rightarrow> Some (Inl e, [Retrieve])
      | Inr status \<Rightarrow> poll_loop retrieve 1 status [Retrieve])"

text \<open>The trace of a run that made \<open>n\<close> passes through the loop body.\<close>

definition polled :: "nat \<Rightarrow> event list" where
  "polled n = Retrieve # concat (replicate n [Sleep 10, Retrieve])"

fun sleeps :: "event list \<Rightarrow> nat list" where
  "sleeps [] = []"
| "sleeps (Retrieve # es) = sleeps es"
| "sleeps (Sleep d # es) = d # sleeps es"

section \<open>Properties of splitting\<close>

lemma split_from_nonempty: "split_from sep cur s \<noteq> []"
  by (induction sep cur s rule: split_from.induct) auto

lemma split_from_cur:
  "split_from sep cur s = (rev cur @ hd (split_from sep [] s)) # tl (split_from sep [] s)"
proof (induction s arbitrary: cur)
  case Nil
  then show ?case by simp
next
  case (Cons c cs)
  show ?case
  proof (cases "prefix sep (c # cs)")
    case True
    then show ?thesis by simp
  next
    case False
    have a: "split_from sep (c # cur) cs =
        (rev (c # cur) @ hd (split_from sep [] cs)) # tl (split_from sep [] cs)"
      by (rule Cons.IH)
    have b: "split_from sep [c] cs =
        (rev [c] @ hd (split_from sep [] cs)) # tl (split_from sep [] cs)"
      by (rule Cons.IH)
    show ?thesis using False a b by simp
  qed
qed

lemma split_all_Nil: "split_all sep [] = [[]]"
  by (simp add: split_all_def)

lemma split_all_nonempty: "split_all sep s \<noteq> []"
  by (simp add: split_all_def split_from_nonempty)

lemma split_all_skip:
  "\<not> prefix sep (c # cs) \<Longrightarrow>
     split_all sep (c # cs) = (c # hd (split_all sep cs)) # tl (split_all sep cs)"
  using split_from_cur[of sep "[c]" cs] by (simp add: split_all_def)

lemma split_all_sep_append:
  "sep \<noteq> [] \<Longrightarrow> split_all sep (sep @ r) = [] # split_all sep r"
  by (cases sep) (simp_all add: split_all_def)

lemma join_Cons_nonempty: "ps \<noteq> [] \<Longrightarrow> join sep (p # ps) = p @ sep @ join sep ps"
  by (cases ps) simp_all

lemma join_push: "join sep ((c # p) # ps) = c # join sep (p # ps)"
  by (cases ps) simp_all

lemma join_snoc: "ps \<noteq> [] \<Longrightarrow> join sep (ps @ [p]) = join sep ps @ sep @ p"
  by (induction sep ps rule: join.induct) simp_all

text \<open>Joining the pieces with the separator gives the text back.\<close>

lemma join_split_all: "sep \<noteq> [] \<Longrightarrow> join sep (split_all sep s) = s"
proof (induction s rule: length_induct)
  case (1 s)
  show ?case
  proof (cases s)
    case Nil
    then show ?thesis by (simp add: split_all_Nil)
  next
    case (Cons c cs)
    show ?thesis
    proof (cases "prefix sep s")
      case True
      then obtain r where r: "s = sep @ r" by (auto simp: prefix_def)
      have "length r < length s" using r 1(2) by simp
      then have "join sep (split_all sep r) = r" using 1 by blast
      then show ?thesis using 1(2)
        by (simp add: r split_all_sep_append join_Cons_nonempty split_all_nonempty)
    next
      case False
      have "join sep (split_all sep cs) = cs" using 1 Cons by simp
      then show ?thesis using False Cons
        by (simp add: split_all_skip join_push split_all_nonempty)
    qed
  qed
qed

lemma split_all_single: "sep \<noteq> [] \<Longrightarrow> split_all sep s = [p] \<Longrightarrow> p = s"
  using join_split_all[of sep s] by simp

lemma split_all_no_sep: "\<not> sublist sep s \<Longrightarrow> split_all sep s = [s]"
proof (induction s)
  case Nil
  then show ?case by (simp add: split_all_Nil)
next
  case (Cons c cs)
  then show ?case by (simp add: sublist_Cons_right split_all_skip)
qed

text \<open>
  The last piece, read off the scan: behind a separator it is the last piece of the
  rest; at any other character it is the last piece of the rest, or the whole text when
  the rest is a single piece.
\<close>

lemma last_split_all_skip:
  assumes "sep \<noteq> []" and "\<not> prefix sep (c # cs)"
  shows "last (split_all sep (c # cs)) =
           (if tl (split_all sep cs) = [] then c # cs else last (split_all sep cs))"
proof (cases "tl (split_all sep cs) = []")
  case True
  then have "split_all sep cs = [hd (split_all sep cs)]"
    using split_all_nonempty[of sep cs] by (cases "split_all sep cs") simp_all
  then have "hd (split_all sep cs) = cs"
    using split_all_single[OF assms(1)] by metis
  then show ?thesis using assms(2) True by (simp add: split_all_skip)
next
  case False
  then show ?thesis
    using assms(2) split_all_nonempty[of sep cs]
    by (cases "split_all sep cs") (simp_all add: split_all_skip)
qed

lemma last_split_all_single:
  "sep \<noteq> [] \<Longrightarrow> tl (split_all sep s) = [] \<Longrightarrow> last (split_all sep s) = s"
proof -
  assume a: "sep \<noteq> []" and b: "tl (split_all sep s) = []"
  from b have "split_all sep s = [last (split_all sep s)]"
    using split_all_nonempty[of sep s] by (cases "split_all sep s") simp_all
  then show ?thesis using split_all_single[OF a] by metis
qed

lemma last_split_all_suffix: "sep \<noteq> [] \<Longrightarrow> suffix (last (split_all sep s)) s"
proof (induction s rule: length_induct)
  case (1 s)
  show ?case
  proof (cases s)
    case Nil
    then show ?thesis by (simp add: split_all_Nil)
  next
    case (Cons c cs)
    show ?thesis
    proof (cases "prefix sep s")
      case True
      then obtain r where r: "s = sep @ r" by (auto simp: prefix_def)
      have "length r < length s" using r 1(2) by simp
      then have "suffix (last (split_all sep r)) r" using 1 by blast
      then show ?thesis using 1(2)
        by (simp add: r split_all_sep_append split_all_nonempty suffix_appendI)
    next
      case False
      have "suffix (last (split_all sep cs)) cs" using 1 Cons by simp
      then show ?thesis using False Cons 1(2)
        by (simp add: last_split_all_skip suffix_ConsI)
    qed
  qed
qed

lemma last_split_all_no_sep: "sep \<noteq> [] \<Longrightarrow> \<not> sublist sep (last (split_all sep s))"
proof (induction s rule: length_induct)
  case (1 s)
  show ?case
  proof (cases s)
    case Nil
    then show ?thesis using 1(2) by (simp add: split_all_Nil)
  next
    case (Cons c cs)
    show ?thesis
    proof (cases "prefix sep s")
      case True
      then obtain r where r: "s = sep @ r" by (auto simp: prefix_def)
      have "length r < length s" using r 1(2) by simp
      then have "\<not> sublist sep (last (split_all sep r))" using 1 by blast
      then show ?thesis using 1(2)
        by (simp add: r split_all_sep_append split_all_nonempty)
    next
      case False
      have ih: "\<not> sublist sep (last (split_all sep cs))" using 1 Cons by simp
      show ?thesis
      proof (cases "tl (split_all sep cs) = []")
        case True
        then have "last (split_all sep cs) = cs"
          using last_split_all_single[OF 1(2)] by blast
        then show ?thesis using ih False Cons True 1(2)
          by (simp add: last_split_all_skip sublist_Cons_right)
      next
        case nt: False
        then show ?thesis using ih False Cons 1(2) by (simp add: last_split_all_skip)
      qed
    qed
  qed
qed

text \<open>A text in which the separator occurs ends with a separator and the last piece.\<close>

lemma split_all_decompose:
  assumes "sep \<noteq> []" and "sublist sep s"
  shows "s = join sep (butlast (split_all sep s)) @ sep @ last (split_all sep s)"
proof -
  let ?X = "split_all sep s"
  have X: "?X = butlast ?X @ [last ?X]"
    using split_all_nonempty[of sep s] by simp
  have "butlast ?X \<noteq> []"
  proof
    assume "butlast ?X = []"
    then have "?X = [last ?X]" using X by simp
    then have "last ?X = s" using split_all_single[OF assms(1)] by metis
    then show False using last_split_all_no_sep[OF assms(1), of s] assms(2) by simp
  qed
  then have "join sep (butlast ?X @ [last ?X]) = join sep (butlast ?X) @ sep @ last ?X"
    by (rule join_snoc)
  then show ?thesis
    using X join_split_all[OF assms(1), of s] by simp
qed

text \<open>
  A separator whose first character does not occur again in it cannot overlap a later
  copy of itself: a copy that starts before another copy ends before it.
\<close>

lemma no_overlap:
  assumes "sep \<noteq> []" and "hd sep \<notin> set (tl sep)" and "pre \<noteq> []"
    and "prefix sep (pre @ sep @ post)"
  shows "prefix sep pre"
proof (rule ccontr)
  assume np: "\<not> prefix sep pre"
  from assms(4) have "prefix sep pre \<or> (\<exists>us. sep = pre @ us \<and> prefix us (sep @ post))"
    by (simp only: prefix_append)
  with np obtain us where us: "sep = pre @ us" "prefix us (sep @ post)" by blast
  have "us \<noteq> []" using us(1) np by auto
  then obtain u us' where u: "us = u # us'" by (cases us) auto
  obtain x t where xt: "sep = x # t" using assms(1) by (cases sep) auto
  obtain p pre' where p: "pre = p # pre'" using assms(3) by (cases pre) auto
  have "u = x" using us(2) unfolding u xt by simp
  moreover have "t = pre' @ u # us'" using us(1) unfolding u xt p by simp
  ultimately have "x \<in> set t" by simp
  then show False using assms(2) xt by simp
qed

lemma last_split_all_after:
  assumes "sep \<noteq> []" and "hd sep \<notin> set (tl sep)" and "\<not> sublist sep post"
  shows "last (split_all sep (pre @ sep @ post)) = post"
proof (induction pre rule: length_induct)
  case (1 pre)
  show ?case
  proof (cases pre)
    case Nil
    then show ?thesis using assms(1,3)
      by (simp add: split_all_sep_append split_all_no_sep)
  next
    case (Cons c pre')
    show ?thesis
    proof (cases "prefix sep (pre @ sep @ post)")
      case True
      then have "prefix sep pre" using no_overlap[OF assms(1,2)] Cons by blast
      then obtain r where r: "pre = sep @ r" by (auto simp: prefix_def)
      have "length r < length pre" using r assms(1) by simp
      then have "last (split_all sep (r @ sep @ post)) = post" using 1 by blast
      then show ?thesis using assms(1)
        by (simp add: r split_all_sep_append split_all_nonempty)
    next
      case False
      have ih: "last (split_all sep (pre' @ sep @ post)) = post" using 1 Cons by simp
      have "tl (split_all sep (pre' @ sep @ post)) \<noteq> []"
      proof
        assume "tl (split_all sep (pre' @ sep @ post)) = []"
        then have "last (split_all sep (pre' @ sep @ post)) = pre' @ sep @ post"
          using last_split_all_single[OF assms(1)] by blast
        then have "length post = length (pre' @ sep @ post)" using ih by simp
        then show False using assms(1) by simp
      qed
      then show ?thesis using False Cons ih assms(1)
        by (simp add: last_split_all_skip)
    qed
  qed
qed

section \<open>The final answer\<close>

lemma marker_nonempty: "ANSWER_MARKER \<noteq> []"
  by (simp add: ANSWER_MARKER_def)

lemma marker_no_overlap: "hd ANSWER_MARKER \<notin> set (tl ANSWER_MARKER)"
  by (simp add: ANSWER_MARKER_def)

lemma extract_final_answer_Some:
  "s \<noteq> [] \<Longrightarrow>
     extract_final_answer (Some s) = Inr (Some (last (split_all ANSWER_MARKER s)))"
  using split_all_nonempty[of ANSWER_MARKER s]
  by (cases "split_all ANSWER_MARKER s")
     (simp_all add: extract_final_answer_def str_split_def index_last_def marker_nonempty)

lemma extract_final_answer_falsy:
  "extract_final_answer None = Inr None" "extract_final_answer (Some []) = Inr None"
  by (simp_all add: extract_final_answer_def)

text \<open>
  Every string in which the marker occurs has a last occurrence: a place where the marker
  stands and after which it does not occur again.
\<close>

lemma marker_last_occurrence:
  "sublist ANSWER_MARKER s \<Longrightarrow>
     \<exists>pre post. s = pre @ ANSWER_MARKER @ post \<and> \<not> sublist ANSWER_MARKER post"
  using split_all_decompose[OF marker_nonempty, of s]
    last_split_all_no_sep[OF marker_nonempty, of s]
  by blast

text \<open>
  Claim C1. \<open>extract_final_answer\<close> returns \<open>None\<close> for \<open>None\<close> and for the empty string.
  For a non-empty string in which the marker \<open>"<ANSWER>: "\<close> does not occur it returns the
  string unchanged. For a string \<open>pre + "<ANSWER>: " + post\<close> in which the marker does not
  occur in \<open>post\<close>, that is, \<open>post\<close> is what follows the last occurrence of the marker, it
  returns \<open>post\<close>; so \<open>"reasoning text <ANSWER>: 42"\<close> gives \<open>"42"\<close>. No case raises.
\<close>

theorem extract_final_answer_after_last_marker:
  "extract_final_answer None = Inr None
   \<and> extract_final_answer (Some []) = Inr None
   \<and> (s \<noteq> [] \<and> \<not> sublist ANSWER_MARKER s \<longrightarrow> extract_final_answer (Some s) = Inr (Some s))
   \<and> (\<not> sublist ANSWER_MARKER post \<longrightarrow>
        extract_final_answer (Some (pre @ ANSWER_MARKER @ post)) = Inr (Some post))
   \<and> extract_final_answer (Some ''reasoning text <ANSWER>: 42'') = Inr (Some ''42'')"
proof (intro conjI impI)
  show "extract_final_answer None = Inr None"
    by (rule extract_final_answer_falsy)
  show "extract_final_answer (Some []) = Inr None"
    by (rule extract_final_answer_falsy)
  show "extract_final_answer (Some s) = Inr (Some s)"
    if "s \<noteq> [] \<and> \<not> sublist ANSWER_MARKER s"
    using that by (simp add: extract_final_answer_Some split_all_no_sep)
  show after: "extract_final_answer (Some (pre @ ANSWER_MARKER @ post)) = Inr (Some post)"
    if "\<not> sublist ANSWER_MARKER post" for pre post
    using that marker_nonempty
    by (simp add: extract_final_answer_Some
          last_split_all_after[OF marker_nonempty marker_no_overlap])
  have "\<not> sublist ANSWER_MARKER ''42''"
    by (simp add: ANSWER_MARKER_def sublist_Cons_right)
  from after[OF this, of "''reasoning text ''"]
  show "extract_final_answer (Some ''reasoning text <ANSWER>: 42'') = Inr (Some ''42'')"
    by (simp add: ANSWER_MARKER_def)
qed

theorem extract_final_answer_after_last_marker_witness:
  "''no marker here'' \<noteq> [] \<and> \<not> sublist ANSWER_MARKER ''no marker here''
   \<and> extract_final_answer (Some ''no marker here'') = Inr (Some ''no marker here'')
   \<and> \<not> sublist ANSWER_MARKER ''C''
   \<and> extract_final_answer (Some (''A <ANSWER>: B'' @ ANSWER_MARKER @ ''C'')) = Inr (Some ''C'')"
proof -
  have h1: "''no marker here'' \<noteq> [] \<and> \<not> sublist ANSWER_MARKER ''no marker here''"
    by (simp add: ANSWER_MARKER_def sublist_Cons_right)
  have h2: "\<not> sublist ANSWER_MARKER ''C''"
    by (simp add: ANSWER_MARKER_def sublist_Cons_right)
  show ?thesis
    using h1 h2
      extract_final_answer_after_last_marker[of "''no marker here''" "''C''" "''A <ANSWER>: B''"]
    by blast
qed

text \<open>
  Claim C9. For every non-empty string \<open>s\<close>, \<open>extract_final_answer\<close> returns a string that
  \<open>s\<close> ends with and in which the marker \<open>"<ANSWER>: "\<close> does not occur.
\<close>

theorem extract_final_answer_suffix_without_marker:
  "s \<noteq> [] \<Longrightarrow>
     \<exists>a. extract_final_answer (Some s) = Inr (Some a) \<and> suffix a s \<and> \<not> sublist ANSWER_MARKER a"
  by (simp add: extract_final_answer_Some last_split_all_suffix last_split_all_no_sep
        marker_nonempty)

theorem extract_final_answer_suffix_without_marker_witness:
  "''a <ANSWER>: b <ANSWER>: c'' \<noteq> []
   \<and> (\<exists>a. extract_final_answer (Some ''a <ANSWER>: b <ANSWER>: c'') = Inr (Some a)
          \<and> suffix a ''a <ANSWER>: b <ANSWER>: c'' \<and> \<not> sublist ANSWER_MARKER a)"
  using extract_final_answer_suffix_without_marker[of "''a <ANSWER>: b <ANSWER>: c''"]
  by simp

section \<open>The context\<close>

lemma split_all_char_piece:
  "c \<notin> set l \<Longrightarrow> split_all [c] (l @ c # r) = l # split_all [c] r"
proof (induction l)
  case Nil
  then show ?case using split_all_sep_append[of "[c]" r] by simp
next
  case (Cons a l)
  then show ?case by (simp add: split_all_skip)
qed

lemma char_not_sublist: "c \<notin> set l \<Longrightarrow> \<not> sublist [c] l"
  by (induction l) (simp_all add: sublist_Cons_right)

lemma sublist_char: "c \<in> set l \<Longrightarrow> sublist [c] l"
  by (induction l) (auto simp: sublist_Cons_right)

text \<open>Splitting at a character undoes joining lines that do not contain it.\<close>

lemma split_all_join_lines:
  "ls \<noteq> [] \<Longrightarrow> \<forall>l\<in>set ls. c \<notin> set l \<Longrightarrow> split_all [c] (join [c] ls) = ls"
proof (induction "[c]" ls rule: join.induct)
  case 1
  then show ?case by simp
next
  case (2 p)
  then show ?case by (simp add: split_all_no_sep char_not_sublist)
next
  case (3 p q ps)
  then show ?case by (simp add: split_all_char_piece)
qed

lemma extract_context_eq:
  "extract_context s = Inr (join NEWLINE (butlast (split_all NEWLINE s)))"
  by (simp add: extract_context_def str_split_def slice_butlast_def NEWLINE_def)

lemma split_all_char_pieces: "\<forall>p\<in>set (split_all [c] s). c \<notin> set p"
proof (induction s)
  case Nil
  then show ?case by (simp add: split_all_Nil)
next
  case (Cons a s)
  show ?case
  proof (cases "a = c")
    case True
    then show ?thesis
      using Cons split_all_sep_append[of "[c]" s] by simp
  next
    case False
    have "hd (split_all [c] s) \<in> set (split_all [c] s)"
      using split_all_nonempty[of "[c]" s] by simp
    moreover have "set (tl (split_all [c] s)) \<subseteq> set (split_all [c] s)"
      using split_all_nonempty[of "[c]" s] by (cases "split_all [c] s") auto
    ultimately show ?thesis
      using Cons False by (auto simp: split_all_skip)
  qed
qed

text \<open>Every string is the join of its lines, at least one, none of which holds a newline.\<close>

lemma string_is_joined_lines:
  "\<exists>ls. ls \<noteq> [] \<and> (\<forall>l\<in>set ls. CHR 0x0A \<notin> set l) \<and> s = join NEWLINE ls"
proof (intro exI conjI)
  show "split_all NEWLINE s \<noteq> []"
    by (rule split_all_nonempty)
  show "\<forall>l\<in>set (split_all NEWLINE s). CHR 0x0A \<notin> set l"
    unfolding NEWLINE_def by (rule split_all_char_pieces)
  show "s = join NEWLINE (split_all NEWLINE s)"
    by (simp add: join_split_all NEWLINE_def)
qed

text \<open>
  Claim C2. \<open>extract_context\<close> returns all lines of its input except the last, joined by
  newlines: applied to the lines \<open>ls\<close> joined by newlines (each line free of newlines, at
  least one line) it returns the lines \<open>butlast ls\<close> joined by newlines. An input without
  a newline character gives the empty string, and \<open>"doc1\ndoc2\nWhat is X?"\<close> gives
  \<open>"doc1\ndoc2"\<close>. No case raises.
\<close>

theorem extract_context_drops_last_line:
  "(ls \<noteq> [] \<and> (\<forall>l\<in>set ls. CHR 0x0A \<notin> set l) \<longrightarrow>
      extract_context (join NEWLINE ls) = Inr (join NEWLINE (butlast ls)))
   \<and> (CHR 0x0A \<notin> set s \<longrightarrow> extract_context s = Inr [])
   \<and> extract_context (''doc1'' @ NEWLINE @ ''doc2'' @ NEWLINE @ ''What is X?'')
       = Inr (''doc1'' @ NEWLINE @ ''doc2'')"
proof (intro conjI impI)
  show lines: "extract_context (join NEWLINE ls) = Inr (join NEWLINE (butlast ls))"
    if "ls \<noteq> [] \<and> (\<forall>l\<in>set ls. CHR 0x0A \<notin> set l)" for ls
    using that split_all_join_lines[of ls "CHR 0x0A"]
    by (simp add: extract_context_eq NEWLINE_def)
  show "extract_context s = Inr []" if "CHR 0x0A \<notin> set s"
    using that by (simp add: extract_context_eq NEWLINE_def split_all_no_sep char_not_sublist)
  show "extract_context (''doc1'' @ NEWLINE @ ''doc2'' @ NEWLINE @ ''What is X?'')
       = Inr (''doc1'' @ NEWLINE @ ''doc2'')"
    using lines[of "[''doc1'', ''doc2'', ''What is X?'']"] by simp
qed

theorem extract_context_drops_last_line_witness:
  "extract_context (join NEWLINE [''a'', ''b c'', [], ''d''])
       = Inr (join NEWLINE (butlast [''a'', ''b c'', [], ''d'']))
   \<and> CHR 0x0A \<notin> set ''What is X?'' \<and> extract_context ''What is X?'' = Inr []"
proof -
  have h1: "[''a'', ''b c'', [], ''d''] \<noteq> []
      \<and> (\<forall>l\<in>set [''a'', ''b c'', [], ''d'']. CHR 0x0A \<notin> set l)"
    by simp
  have h2: "CHR 0x0A \<notin> set ''What is X?''"
    by simp
  show ?thesis
    using h1 h2
      extract_context_drops_last_line[of "[''a'', ''b c'', [], ''d'']" "''What is X?''"]
    by blast
qed

lemma last_line_append:
  "CHR 0x0A \<notin> set l \<Longrightarrow> last_line (a @ CHR 0x0A # l) = l"
proof -
  assume "CHR 0x0A \<notin> set l"
  then have tw: "takeWhile (\<lambda>c. c \<noteq> CHR 0x0A) (rev l) = rev l"
    by (auto simp: takeWhile_eq_all_conv)
  have r: "rev (a @ CHR 0x0A # l) = rev l @ CHR 0x0A # rev a"
    by simp
  have t: "takeWhile (\<lambda>c. c \<noteq> CHR 0x0A) (rev l @ CHR 0x0A # rev a)
      = takeWhile (\<lambda>c. c \<noteq> CHR 0x0A) (rev l)"
    by (simp add: takeWhile_tail)
  show ?thesis unfolding last_line_def r t tw by simp
qed

text \<open>
  Claim C10. For every string \<open>s\<close> that contains a newline character, the context
  returned by \<open>extract_context\<close>, followed by a newline and by the last line of \<open>s\<close>, is
  \<open>s\<close> again.
\<close>

theorem extract_context_loses_only_last_line:
  "CHR 0x0A \<in> set s \<Longrightarrow>
     \<exists>ctx. extract_context s = Inr ctx \<and> ctx @ NEWLINE @ last_line s = s"
proof -
  assume nl: "CHR 0x0A \<in> set s"
  let ?X = "split_all NEWLINE s"
  have ne: "NEWLINE \<noteq> []" by (simp add: NEWLINE_def)
  have "sublist NEWLINE s"
    using nl sublist_char[of "CHR 0x0A" s] by (simp add: NEWLINE_def)
  then have s: "join NEWLINE (butlast ?X) @ NEWLINE @ last ?X = s"
    using split_all_decompose[OF ne, of s] by simp
  have "CHR 0x0A \<notin> set (last ?X)"
    using last_split_all_no_sep[OF ne, of s] sublist_char[of "CHR 0x0A" "last ?X"]
    by (auto simp: NEWLINE_def)
  then have "last_line (join NEWLINE (butlast ?X) @ CHR 0x0A # last ?X) = last ?X"
    by (rule last_line_append)
  then have "last_line s = last ?X" using s by (simp add: NEWLINE_def)
  then show ?thesis using s by (simp add: extract_context_eq)
qed

theorem extract_context_loses_only_last_line_witness:
  "CHR 0x0A \<in> set (''doc1'' @ NEWLINE @ NEWLINE @ ''What is X?'')
   \<and> (\<exists>ctx. extract_context (''doc1'' @ NEWLINE @ NEWLINE @ ''What is X?'') = Inr ctx
         \<and> ctx @ NEWLINE @ last_line (''doc1'' @ NEWLINE @ NEWLINE @ ''What is X?'')
             = ''doc1'' @ NEWLINE @ NEWLINE @ ''What is X?'')"
proof -
  have h: "CHR 0x0A \<in> set (''doc1'' @ NEWLINE @ NEWLINE @ ''What is X?'')"
    by (simp add: NEWLINE_def)
  show ?thesis
    using h extract_context_loses_only_last_line[OF h] by blast
qed

section \<open>Token counting\<close>

lemma count_items_total:
  "\<forall>(k, v)\<in>set items. \<exists>toks. encode v = Inr toks \<and> length toks = ntok v \<Longrightarrow>
     count_items encode tokens_per_name n items
       = Inr (n + (\<Sum>(k, v)\<leftarrow>items. int (ntok v))
                + tokens_per_name * int (length (filter (\<lambda>(k, v). k = ''role'') items)))"
proof (induction items arbitrary: n)
  case Nil
  then show ?case by simp
next
  case (Cons kv items)
  obtain k v where kv: "kv = (k, v)" by (cases kv)
  from Cons.prems obtain toks where toks: "encode v = Inr toks" "length toks = ntok v"
    unfolding kv by auto
  have rest: "\<forall>(k, v)\<in>set items. \<exists>toks. encode v = Inr toks \<and> length toks = ntok v"
    using Cons.prems by simp
  show ?case
    unfolding kv using toks Cons.IH[OF rest] by (simp add: algebra_simps)
qed

lemma count_messages_total:
  "\<forall>m\<in>set messages. \<forall>(k, v)\<in>set m. \<exists>toks. encode v = Inr toks \<and> length toks = ntok v \<Longrightarrow>
     count_messages encode tokens_per_message tokens_per_name n messages
       = Inr (n + tokens_per_message * int (length messages)
                + (\<Sum>m\<leftarrow>messages. \<Sum>(k, v)\<leftarrow>m. int (ntok v))
                + tokens_per_name
                    * (\<Sum>m\<leftarrow>messages. int (length (filter (\<lambda>(k, v). k = ''role'') m))))"
proof (induction messages arbitrary: n)
  case Nil
  then show ?case by simp
next
  case (Cons m messages)
  have here: "\<forall>(k, v)\<in>set m. \<exists>toks. encode v = Inr toks \<and> length toks = ntok v"
    using Cons.prems by simp
  have rest: "\<forall>m\<in>set messages. \<forall>(k, v)\<in>set m.
      \<exists>toks. encode v = Inr toks \<and> length toks = ntok v"
    using Cons.prems by simp
  show ?case
    using count_items_total[OF here, of tokens_per_name "n + tokens_per_message"]
      Cons.IH[OF rest]
    by (simp add: algebra_simps)
qed

lemma one_role_field:
  "distinct (map fst m) \<Longrightarrow> ''role'' \<in> fst ` set m \<Longrightarrow>
     length (filter (\<lambda>(k, v). k = ''role'') m) = 1"
proof (induction m)
  case Nil
  then show ?case by simp
next
  case (Cons kv m)
  obtain k v where kv: "kv = (k, v)" by (cases kv)
  show ?case
  proof (cases "k = ''role''")
    case True
    then have "''role'' \<notin> fst ` set m" using Cons.prems(1) kv by simp
    then have "filter (\<lambda>(k, v). k = ''role'') m = []"
      by (force simp: filter_empty_conv)
    then show ?thesis using True kv by simp
  next
    case False
    then show ?thesis using Cons kv by auto
  qed
qed

text \<open>
  Claim C3. With the default overheads (3 per message, 1 per name) and a tokenizer that
  returns \<open>ntok v\<close> tokens for each field value \<open>v\<close> of the conversation,
  \<open>num_tokens_from_messages\<close> returns 3 tokens per message, plus the token counts of all
  field values, plus 1 for each field whose key is \<open>"role"\<close>, plus 3. For two messages
  that each have a \<open>"role"\<close> field this is 6, plus the token counts, plus 2, plus 3.
\<close>

theorem num_tokens_from_messages_additive:
  "((\<forall>m\<in>set messages. \<forall>(k, v)\<in>set m. \<exists>toks. encode v = Inr toks \<and> length toks = ntok v) \<longrightarrow>
      num_tokens_from_messages encode messages 3 1
        = Inr (3 * int (length messages)
               + (\<Sum>m\<leftarrow>messages. \<Sum>(k, v)\<leftarrow>m. int (ntok v))
               + (\<Sum>m\<leftarrow>messages. int (length (filter (\<lambda>(k, v). k = ''role'') m)))
               + 3))
   \<and> ((\<forall>m\<in>set [m1, m2]. distinct (map fst m) \<and> ''role'' \<in> fst ` set m
          \<and> (\<forall>(k, v)\<in>set m. \<exists>toks. encode v = Inr toks \<and> length toks = ntok v)) \<longrightarrow>
      num_tokens_from_messages encode [m1, m2] 3 1
        = Inr (6 + ((\<Sum>(k, v)\<leftarrow>m1. int (ntok v)) + (\<Sum>(k, v)\<leftarrow>m2. int (ntok v))) + 2 + 3))"
proof (intro conjI impI)
  show general: "num_tokens_from_messages encode messages 3 1
        = Inr (3 * int (length messages)
               + (\<Sum>m\<leftarrow>messages. \<Sum>(k, v)\<leftarrow>m. int (ntok v))
               + (\<Sum>m\<leftarrow>messages. int (length (filter (\<lambda>(k, v). k = ''role'') m)))
               + 3)"
    if "\<forall>m\<in>set messages. \<forall>(k, v)\<in>set m. \<exists>toks. encode v = Inr toks \<and> length toks = ntok v"
    for messages
    using count_messages_total[OF that, of 3 1 0]
    by (simp add: num_tokens_from_messages_def)
  show "num_tokens_from_messages encode [m1, m2] 3 1
        = Inr (6 + ((\<Sum>(k, v)\<leftarrow>m1. int (ntok v)) + (\<Sum>(k, v)\<leftarrow>m2. int (ntok v))) + 2 + 3)"
    if h: "\<forall>m\<in>set [m1, m2]. distinct (map fst m) \<and> ''role'' \<in> fst ` set m
          \<and> (\<forall>(k, v)\<in>set m. \<exists>toks. encode v = Inr toks \<and> length toks = ntok v)"
  proof -
    have enc: "\<forall>m\<in>set [m1, m2]. \<forall>(k, v)\<in>set m.
        \<exists>toks. encode v = Inr toks \<and> length toks = ntok v"
      using h by simp
    have r1: "length (filter (\<lambda>(k, v). k = ''role'') m1) = 1"
      using h by (simp add: one_role_field)
    have r2: "length (filter (\<lambda>(k, v). k = ''role'') m2) = 1"
      using h by (simp add: one_role_field)
    show ?thesis using general[OF enc] r1 r2 by simp
  qed
qed

theorem num_tokens_from_messages_additive_witness:
  "num_tokens_from_messages (Inr :: string \<Rightarrow> py_exception + string)
        [[(''role'', ''system''), (''content'', ''Be brief.''), (''name'', ''role'')]] 3 1
       = Inr 26
   \<and> num_tokens_from_messages (Inr :: string \<Rightarrow> py_exception + string)
        [[(''role'', ''user''), (''content'', ''hi'')],
         [(''content'', ''yes''), (''role'', ''assistant'')]] 3 1
       = Inr 29"
proof -
  have h1: "\<forall>m\<in>set [[(''role'', ''system''), (''content'', ''Be brief.''), (''name'', ''role'')]].
      \<forall>(k, v)\<in>set m. \<exists>toks. (Inr v :: py_exception + string) = Inr toks \<and> length toks = length v"
    by simp
  have h2: "\<forall>m\<in>set [[(''role'', ''user''), (''content'', ''hi'')],
                [(''content'', ''yes''), (''role'', ''assistant'')]].
        distinct (map fst m) \<and> ''role'' \<in> fst ` set m
        \<and> (\<forall>(k, v)\<in>set m. \<exists>toks. (Inr v :: py_exception + string) = Inr toks
              \<and> length toks = length v)"
    by simp
  show ?thesis
    using h1 h2
      num_tokens_from_messages_additive[of
        "[[(''role'', ''system''), (''content'', ''Be brief.''), (''name'', ''role'')]]"
        Inr length
        "[(''role'', ''user''), (''content'', ''hi'')]"
        "[(''content'', ''yes''), (''role'', ''assistant'')]"]
    by simp
qed

section \<open>Monitoring the job\<close>

lemma poll_loop_terminal:
  "status \<in> set terminal_statuses \<Longrightarrow>
     poll_loop retrieve k status trace = Some (Inr status, trace)"
  by (subst poll_loop.simps) simp

lemma poll_loop_continue:
  "status \<notin> set terminal_statuses \<Longrightarrow> retrieve k = Inr status' \<Longrightarrow>
     poll_loop retrieve k status trace
       = poll_loop retrieve (Suc k) status' (trace @ [Sleep 10, Retrieve])"
  by (subst poll_loop.simps) simp

lemma poll_loop_raise:
  "status \<notin> set terminal_statuses \<Longrightarrow> retrieve k = Inl e \<Longrightarrow>
     poll_loop retrieve k status trace = Some (Inl e, trace @ [Sleep 10, Retrieve])"
  by (subst poll_loop.simps) simp

text \<open>
  From a non-terminal status, \<open>m\<close> further non-terminal replies followed by the reply
  \<open>r\<close>, terminal or an exception, make the loop body run \<open>m + 1\<close> times.
\<close>

lemma poll_loop_run:
  assumes "status \<notin> set terminal_statuses"
    and "\<forall>j<m. \<exists>s. retrieve (k + j) = Inr s \<and> s \<notin> set terminal_statuses"
    and "retrieve (k + m) = r"
    and "case r of Inl e \<Rightarrow> True | Inr s \<Rightarrow> s \<in> set terminal_statuses"
  shows "poll_loop retrieve k status trace
           = Some (r, trace @ concat (replicate (Suc m) [Sleep 10, Retrieve]))"
  using assms
proof (induction m arbitrary: k status trace)
  case 0
  show ?case
  proof (cases r)
    case (Inl e)
    then show ?thesis using 0 by (simp add: poll_loop_raise)
  next
    case (Inr s)
    then show ?thesis using 0 by (simp add: poll_loop_continue poll_loop_terminal)
  qed
next
  case (Suc m)
  from Suc.prems(2) obtain s where s: "retrieve k = Inr s" "s \<notin> set terminal_statuses"
    by force
  have later: "\<forall>j<m. \<exists>s. retrieve (Suc k + j) = Inr s \<and> s \<notin> set terminal_statuses"
    using Suc.prems(2) by (metis Suc_less_eq add_Suc_shift)
  have last: "retrieve (Suc k + m) = r"
    using Suc.prems(3) by simp
  have "poll_loop retrieve (Suc k) s (trace @ [Sleep 10, Retrieve])
      = Some (r, (trace @ [Sleep 10, Retrieve]) @ concat (replicate (Suc m) [Sleep 10, Retrieve]))"
    by (rule Suc.IH[OF s(2) later last Suc.prems(4)])
  then show ?case
    using Suc.prems(1) s(1) by (simp add: poll_loop_continue)
qed

lemma monitor_job_run:
  assumes "\<forall>j<n. \<exists>s. retrieve j = Inr s \<and> s \<notin> set terminal_statuses"
    and "retrieve n = r"
    and "case r of Inl e \<Rightarrow> True | Inr s \<Rightarrow> s \<in> set terminal_statuses"
  shows "monitor_job retrieve = Some (r, polled n)"
proof (cases n)
  case 0
  then show ?thesis using assms(2,3)
    by (cases r) (simp_all add: monitor_job_def polled_def poll_loop_terminal)
next
  case (Suc m)
  from assms(1) Suc obtain s where s: "retrieve 0 = Inr s" "s \<notin> set terminal_statuses"
    by force
  have later: "\<forall>j<m. \<exists>s. retrieve (1 + j) = Inr s \<and> s \<notin> set terminal_statuses"
    using assms(1) Suc by simp
  have last: "retrieve (1 + m) = r"
    using assms(2) Suc by simp
  have "poll_loop retrieve 1 s [Retrieve]
      = Some (r, [Retrieve] @ concat (replicate (Suc m) [Sleep 10, Retrieve]))"
    by (rule poll_loop_run[OF s(2) later last assms(3)])
  then show ?thesis using s(1) Suc by (simp add: monitor_job_def polled_def)
qed

lemma sleeps_polled: "sleeps (polled n) = replicate n 10"
  by (induction n) (simp_all add: polled_def)

text \<open>A run that leaves the loop does so with the status it tested last.\<close>

lemma poll_loop_result:
  assumes "poll_loop retrieve k status trace = Some y"
  shows "case fst y of Inl e \<Rightarrow> True | Inr st \<Rightarrow> st \<in> set terminal_statuses"
proof (rule poll_loop.raw_induct
    [where P = "\<lambda>retrieve k status trace y.
        case fst y of Inl e \<Rightarrow> True | Inr st \<Rightarrow> st \<in> set terminal_statuses",
      OF _ assms], goal_cases)
  case (1 loop retrieve k status trace y)
  show ?case
  proof (cases "status \<in> set terminal_statuses")
    case True
    then show ?thesis using 1(2) by auto
  next
    case False
    show ?thesis
    proof (cases "retrieve k")
      case (Inl e)
      then show ?thesis using 1(2) False by auto
    next
      case (Inr s)
      then have "loop retrieve (Suc k) s (trace @ [Sleep 10, Retrieve]) = Some y"
        using 1(2) False by simp
      then show ?thesis by (rule 1(1))
    qed
  qed
qed

text \<open>While the service never reports a terminal status, the loop does not end.\<close>

lemma poll_loop_forever:
  assumes "poll_loop retrieve k status trace = Some y"
  shows "status \<in> set terminal_statuses
           \<or> \<not> (\<forall>j\<ge>k. \<exists>s. retrieve j = Inr s \<and> s \<notin> set terminal_statuses)"
proof (rule poll_loop.raw_induct
    [where P = "\<lambda>retrieve k status trace y. status \<in> set terminal_statuses
        \<or> \<not> (\<forall>j\<ge>k. \<exists>s. retrieve j = Inr s \<and> s \<notin> set terminal_statuses)",
      OF _ assms], goal_cases)
  case (1 loop retrieve k status trace y)
  show ?case
  proof (rule ccontr)
    assume "\<not> ?thesis"
    then have nt: "status \<notin> set terminal_statuses"
      and all: "\<forall>j\<ge>k. \<exists>s. retrieve j = Inr s \<and> s \<notin> set terminal_statuses"
      by auto
    from all obtain s where s: "retrieve k = Inr s" "s \<notin> set terminal_statuses"
      by blast
    have "loop retrieve (Suc k) s (trace @ [Sleep 10, Retrieve]) = Some y"
      using 1(2) nt s(1) by simp
    from 1(1)[OF this] s(2) all show False
      by (meson Suc_leD)
  qed
qed

text \<open>
  Claim C5. The run of the polling loop, for a service whose first \<open>n\<close> replies are
  non-terminal statuses and whose next reply is \<open>st\<close>, \<open>succeeded\<close> or \<open>failed\<close>: the loop
  is left with \<open>st\<close> after \<open>n\<close> passes, having slept 10 seconds before each retrieval but
  the first; for every \<open>n\<close>, so no number of retries ends it earlier. If the first reply
  is already terminal there is one retrieval and no sleep. If no reply is ever terminal
  the loop never ends, and a run that leaves the loop leaves it with a terminal status.
\<close>

theorem monitor_job_polls_until_terminal:
  "((\<forall>j<n. \<exists>s. retrieve j = Inr s \<and> s \<notin> set terminal_statuses)
      \<and> retrieve n = Inr st \<and> st \<in> set terminal_statuses \<longrightarrow>
        monitor_job retrieve = Some (Inr st, polled n))
   \<and> sleeps (polled n) = replicate n 10
   \<and> (retrieve 0 = Inr st \<and> st \<in> set terminal_statuses \<longrightarrow>
        monitor_job retrieve = Some (Inr st, [Retrieve]) \<and> sleeps [Retrieve] = [])
   \<and> ((\<forall>j. \<exists>s. retrieve j = Inr s \<and> s \<notin> set terminal_statuses) \<longrightarrow>
        monitor_job retrieve = None)
   \<and> (monitor_job retrieve = Some (Inr st', tr) \<longrightarrow> st' \<in> set terminal_statuses)
   \<and> set terminal_statuses = {''succeeded'', ''failed''}"
proof (intro conjI impI)
  show "monitor_job retrieve = Some (Inr st, polled n)"
    if "(\<forall>j<n. \<exists>s. retrieve j = Inr s \<and> s \<notin> set terminal_statuses)
      \<and> retrieve n = Inr st \<and> st \<in> set terminal_statuses"
    using that monitor_job_run[of n retrieve "Inr st"] by simp
  show "sleeps (polled n) = replicate n 10"
    by (rule sleeps_polled)
  show "monitor_job retrieve = Some (Inr st, [Retrieve])"
    if "retrieve 0 = Inr st \<and> st \<in> set terminal_statuses"
    using that monitor_job_run[of 0 retrieve "Inr st"] by (simp add: polled_def)
  show "sleeps [Retrieve] = []"
    by simp
  show "monitor_job retrieve = None"
    if never: "\<forall>j. \<exists>s. retrieve j = Inr s \<and> s \<notin> set terminal_statuses"
  proof (rule ccontr)
    assume "monitor_job retrieve \<noteq> None"
    then obtain y where y: "monitor_job retrieve = Some y" by blast
    from never obtain s where s: "retrieve 0 = Inr s" "s \<notin> set terminal_statuses"
      by blast
    have "poll_loop retrieve 1 s [Retrieve] = Some y"
      using y s(1) by (simp add: monitor_job_def)
    from poll_loop_forever[OF this] s(2) never show False by blast
  qed
  show "st' \<in> set terminal_statuses" if "monitor_job retrieve = Some (Inr st', tr)"
  proof (cases "retrieve 0")
    case (Inl e)
    then show ?thesis using that by (simp add: monitor_job_def)
  next
    case (Inr s)
    then have "poll_loop retrieve 1 s [Retrieve] = Some (Inr st', tr)"
      using that by (simp add: monitor_job_def)
    from poll_loop_result[OF this] show ?thesis by simp
  qed
  show "set terminal_statuses = {''succeeded'', ''failed''}"
    by (simp add: terminal_statuses_def)
qed

theorem monitor_job_polls_until_terminal_witness:
  "''succeeded'' \<in> set terminal_statuses
   \<and> monitor_job (\<lambda>k. if k < 2 then Inr ''running'' else Inr ''succeeded'')
       = Some (Inr ''succeeded'', [Retrieve, Sleep 10, Retrieve, Sleep 10, Retrieve])
   \<and> monitor_job (\<lambda>k. Inr ''failed'') = Some (Inr ''failed'', [Retrieve])
   \<and> ''running'' \<notin> set terminal_statuses
   \<and> monitor_job (\<lambda>k. Inr ''running'') = None"
proof -
  have h1: "(\<forall>j<2::nat. \<exists>s. (if j < 2 then Inr ''running'' else Inr ''succeeded'' :: py_exception + string)
        = Inr s \<and> s \<notin> set terminal_statuses)"
    by (simp add: terminal_statuses_def)
  have h2: "''succeeded'' \<in> set terminal_statuses" "''failed'' \<in> set terminal_statuses"
    "''running'' \<notin> set terminal_statuses"
    by (simp_all add: terminal_statuses_def)
  have p: "polled 2 = [Retrieve, Sleep 10, Retrieve, Sleep 10, Retrieve]"
    by (simp add: polled_def numeral_2_eq_2)
  have a: "monitor_job (\<lambda>k. if k < 2 then Inr ''running'' else Inr ''succeeded'')
       = Some (Inr ''succeeded'', [Retrieve, Sleep 10, Retrieve, Sleep 10, Retrieve])"
    using h1 h2(1) h2(3) p
      monitor_job_polls_until_terminal[of 2
        "\<lambda>k. if k < 2 then Inr ''running'' else Inr ''succeeded''" "''succeeded''",
        THEN conjunct1]
    by simp
  have b: "monitor_job (\<lambda>k. Inr ''failed'') = Some (Inr ''failed'', [Retrieve])"
    using h2(2)
      monitor_job_polls_until_terminal[of 0 "\<lambda>k. Inr ''failed''" "''failed''",
        THEN conjunct2, THEN conjunct2, THEN conjunct1]
    by simp
  have c: "monitor_job (\<lambda>k. Inr ''running'') = None"
    using h2(3)
      monitor_job_polls_until_terminal[of 0 "\<lambda>k. Inr ''running''",
        THEN conjunct2, THEN conjunct2, THEN conjunct2, THEN conjunct1]
    by simp
  show ?thesis
    using h2 a b c by simp
qed

text \<open>
  Claim C8. Nothing in the polling loop handles an exception of the status retrieval:
  when a retrieval raises, the first one or one made in the loop after any number of
  non-terminal statuses, the run ends with that exception and makes no further
  retrieval.
\<close>

theorem monitor_job_retrieve_exception_propagates:
  "((\<forall>j<n. \<exists>s. retrieve j = Inr s \<and> s \<notin> set terminal_statuses) \<and> retrieve n = Inl e \<longrightarrow>
      monitor_job retrieve = Some (Inl e, polled n))
   \<and> (retrieve 0 = Inl e \<longrightarrow> monitor_job retrieve = Some (Inl e, [Retrieve]))"
proof (intro conjI impI)
  show "monitor_job retrieve = Some (Inl e, polled n)"
    if "(\<forall>j<n. \<exists>s. retrieve j = Inr s \<and> s \<notin> set terminal_statuses) \<and> retrieve n = Inl e"
    using that monitor_job_run[of n retrieve "Inl e"] by simp
  show "monitor_job retrieve = Some (Inl e, [Retrieve])" if "retrieve 0 = Inl e"
    using that by (simp add: monitor_job_def)
qed

theorem monitor_job_retrieve_exception_propagates_witness:
  "monitor_job (\<lambda>k. if k < 1 then Inr ''running'' else Inl (RemoteError ''connection reset''))
       = Some (Inl (RemoteError ''connection reset''), [Retrieve, Sleep 10, Retrieve])
   \<and> monitor_job (\<lambda>k. Inl (RemoteError ''connection reset''))
       = Some (Inl (RemoteError ''connection reset''), [Retrieve])"
proof -
  have h: "\<forall>j<1::nat. \<exists>s. (if j < 1 then Inr ''running'' else Inl (RemoteError ''connection reset''))
        = Inr s \<and> s \<notin> set terminal_statuses"
    by (simp add: terminal_statuses_def)
  have p: "polled 1 = [Retrieve, Sleep 10, Retrieve]"
    by (simp add: polled_def)
  have a: "monitor_job (\<lambda>k. if k < 1 then Inr ''running'' else Inl (RemoteError ''connection reset''))
       = Some (Inl (RemoteError ''connection reset''), [Retrieve, Sleep 10, Retrieve])"
    using h p
      monitor_job_retrieve_exception_propagates[of 1
        "\<lambda>k. if k < 1 then Inr ''running'' else Inl (RemoteError ''connection reset'')"
        "RemoteError ''connection reset''", THEN conjunct1]
    by simp
  have b: "monitor_job (\<lambda>k. Inl (RemoteError ''connection reset''))
       = Some (Inl (RemoteError ''connection reset''), [Retrieve])"
    using monitor_job_retrieve_exception_propagates[of 0
        "\<lambda>k. Inl (RemoteError ''connection reset'')" "RemoteError ''connection reset''",
        THEN conjunct2]
    by simp
  show ?thesis
    using a b by simp
qed

section \<open>The cost estimate\<close>

subsection \<open>Powers of two and the binary logarithm\<close>












subsection \<open>Rounding to a double\<close>















subsection \<open>Rounding concrete values\<close>













subsection \<open>Doubling in floating point\<close>









subsection \<open>The estimate\<close>













section \<open>Inference and cleaning over the rows\<close>

lemma get_model_completions_failure:
  "client (completion_request prompt deployment) = Inl e \<Longrightarrow>
     get_model_completions client prompt deployment = (None, [exception_text e])"
  by (simp add: get_model_completions_def)

lemma get_model_completions_success:
  "client (completion_request prompt deployment) = Inr resp \<Longrightarrow> choices resp = ch # chs \<Longrightarrow>
     get_model_completions client prompt deployment = (message_content ch, [])"
  by (simp add: get_model_completions_def)

lemma progress_apply_length:
  "length (fst (progress_apply service k deployment rows)) = length rows"
  by (induction rows arbitrary: k) (simp_all add: split_beta Let_def)

text \<open>The response of a row is what its own call gives.\<close>

lemma progress_apply_nth:
  "i < length rows \<Longrightarrow>
     fst (progress_apply service k deployment rows) ! i
       = fst (get_model_completions (service (k + i)) (instruction (rows ! i)) deployment)"
proof (induction rows arbitrary: k i)
  case Nil
  then show ?case by simp
next
  case (Cons x rows)
  show ?case
  proof (cases i)
    case 0
    then show ?thesis by (simp add: split_beta Let_def)
  next
    case (Suc j)
    then have "j < length rows" using Cons.prems by simp
    from Cons.IH[OF this, of "Suc k"] show ?thesis
      using Suc by (simp add: split_beta Let_def)
  qed
qed

lemma extract_final_answer_total:
  "extract_final_answer x = Inr (projr (extract_final_answer x))"
proof (cases x)
  case None
  then show ?thesis by (simp add: extract_final_answer_falsy)
next
  case (Some s)
  then show ?thesis
    by (cases "s = []") (simp_all add: extract_final_answer_falsy extract_final_answer_Some)
qed

lemma extract_context_total:
  "extract_context s = Inr (projr (extract_context s))"
  by (simp add: extract_context_eq)

lemma series_apply_total:
  "\<forall>x. f x = Inr (projr (f x)) \<Longrightarrow> series_apply f xs = Inr (map (\<lambda>x. projr (f x)) xs)"
proof (induction xs)
  case Nil
  then show ?case by simp
next
  case (Cons x xs)
  obtain y where y: "f x = Inr y" using Cons.prems by blast
  have "series_apply f xs = Inr (map (\<lambda>x. projr (f x)) xs)"
    using Cons by blast
  then show ?case using y by simp
qed

lemma series_apply_final_answers:
  "series_apply extract_final_answer xs
     = Inr (map (\<lambda>x. projr (extract_final_answer x)) xs)"
  by (rule series_apply_total) (simp add: extract_final_answer_total[symmetric])

lemma series_apply_contexts:
  "series_apply extract_context xs = Inr (map (\<lambda>x. projr (extract_context x)) xs)"
  by (rule series_apply_total) (simp add: extract_context_total[symmetric])

text \<open>
  Claim C4. \<open>get_model_completions\<close> returns \<open>None\<close> when the chat-completion call
  raises. Over the rows of the test set every row gets a response, whatever happens in
  the other rows: \<open>None\<close> where the call of the row raised, the content of the first
  choice where the call returned one. Applying \<open>extract_final_answer\<close> to the column of
  responses does not raise, and the final answer of a row whose call raised is \<open>None\<close>.
\<close>

theorem inference_failure_is_per_row:
  "(client (completion_request prompt deployment) = Inl e \<longrightarrow>
      get_model_completions client prompt deployment = (None, [exception_text e]))
   \<and> (let responses = fst (progress_apply service 0 deployment test_df) in
        length responses = length test_df
        \<and> (\<exists>answers. series_apply extract_final_answer responses = Inr answers
              \<and> length answers = length test_df
              \<and> (\<forall>i<length test_df.
                    extract_final_answer (responses ! i) = Inr (answers ! i)
                    \<and> (\<forall>e'. service i (completion_request (instruction (test_df ! i)) deployment)
                              = Inl e' \<longrightarrow>
                            responses ! i = None \<and> answers ! i = None)
                    \<and> (\<forall>resp ch chs.
                          service i (completion_request (instruction (test_df ! i)) deployment)
                              = Inr resp \<and> choices resp = ch # chs \<longrightarrow>
                            responses ! i = message_content ch))))
   \<and> extract_final_answer None = Inr None"
proof (intro conjI impI)
  show "get_model_completions client prompt deployment = (None, [exception_text e])"
    if "client (completion_request prompt deployment) = Inl e"
    using that by (rule get_model_completions_failure)
  show "extract_final_answer None = Inr None"
    by (rule extract_final_answer_falsy)
  let ?responses = "fst (progress_apply service 0 deployment test_df)"
  let ?answers = "map (\<lambda>x. projr (extract_final_answer x)) ?responses"
  have len: "length ?responses = length test_df"
    by (rule progress_apply_length)
  have row: "extract_final_answer (?responses ! i) = Inr (?answers ! i)
      \<and> (\<forall>e'. service i (completion_request (instruction (test_df ! i)) deployment) = Inl e' \<longrightarrow>
             ?responses ! i = None \<and> ?answers ! i = None)
      \<and> (\<forall>resp ch chs. service i (completion_request (instruction (test_df ! i)) deployment)
               = Inr resp \<and> choices resp = ch # chs \<longrightarrow>
             ?responses ! i = message_content ch)"
    if i: "i < length test_df" for i
  proof (intro conjI allI impI)
    have nth: "?responses ! i
        = fst (get_model_completions (service i) (instruction (test_df ! i)) deployment)"
      using progress_apply_nth[OF i, of service 0 deployment] by simp
    show ans: "extract_final_answer (?responses ! i) = Inr (?answers ! i)"
      using i len extract_final_answer_total[of "?responses ! i"] by simp
    show none: "?responses ! i = None"
      if "service i (completion_request (instruction (test_df ! i)) deployment) = Inl e'" for e'
      using that nth by (simp add: get_model_completions_failure)
    show "?answers ! i = None"
      if "service i (completion_request (instruction (test_df ! i)) deployment) = Inl e'" for e'
      using none[OF that] ans by (simp add: extract_final_answer_falsy)
    show "?responses ! i = message_content ch"
      if "service i (completion_request (instruction (test_df ! i)) deployment) = Inr resp
          \<and> choices resp = ch # chs" for resp ch chs
      using that nth by (simp add: get_model_completions_success)
  qed
  show "let responses = fst (progress_apply service 0 deployment test_df) in
        length responses = length test_df
        \<and> (\<exists>answers. series_apply extract_final_answer responses = Inr answers
              \<and> length answers = length test_df
              \<and> (\<forall>i<length test_df.
                    extract_final_answer (responses ! i) = Inr (answers ! i)
                    \<and> (\<forall>e'. service i (completion_request (instruction (test_df ! i)) deployment)
                              = Inl e' \<longrightarrow>
                            responses ! i = None \<and> answers ! i = None)
                    \<and> (\<forall>resp ch chs.
                          service i (completion_request (instruction (test_df ! i)) deployment)
                              = Inr resp \<and> choices resp = ch # chs \<longrightarrow>
                            responses ! i = message_content ch)))"
    unfolding Let_def
  proof (intro conjI exI[of _ ?answers] allI impI)
    show "length ?responses = length test_df" by (rule len)
    show "series_apply extract_final_answer ?responses = Inr ?answers"
      by (rule series_apply_final_answers)
    show "length ?answers = length test_df" using len by simp
  qed (use row in blast)+
qed

theorem inference_failure_is_per_row_witness:
  "fst (progress_apply
         (\<lambda>k req. if k = 1 then Inl (RemoteError ''rate limit'')
                   else Inr \<lparr>choices = [\<lparr>message_content = Some ''so <ANSWER>: 4''\<rparr>]\<rparr>)
         0 (Some ''gpt-4o-mini'')
         [\<lparr>instruction = ''q0'', cot_answer = None, question = ''q0''\<rparr>,
          \<lparr>instruction = ''q1'', cot_answer = None, question = ''q1''\<rparr>,
          \<lparr>instruction = ''q2'', cot_answer = None, question = ''q2''\<rparr>]) ! 1 = None
   \<and> fst (progress_apply
         (\<lambda>k req. if k = 1 then Inl (RemoteError ''rate limit'')
                   else Inr \<lparr>choices = [\<lparr>message_content = Some ''so <ANSWER>: 4''\<rparr>]\<rparr>)
         0 (Some ''gpt-4o-mini'')
         [\<lparr>instruction = ''q0'', cot_answer = None, question = ''q0''\<rparr>,
          \<lparr>instruction = ''q1'', cot_answer = None, question = ''q1''\<rparr>,
          \<lparr>instruction = ''q2'', cot_answer = None, question = ''q2''\<rparr>]) ! 2
       = Some ''so <ANSWER>: 4''
   \<and> (\<exists>answers.
        series_apply extract_final_answer
          (fst (progress_apply
             (\<lambda>k req. if k = 1 then Inl (RemoteError ''rate limit'')
                       else Inr \<lparr>choices = [\<lparr>message_content = Some ''so <ANSWER>: 4''\<rparr>]\<rparr>)
             0 (Some ''gpt-4o-mini'')
             [\<lparr>instruction = ''q0'', cot_answer = None, question = ''q0''\<rparr>,
              \<lparr>instruction = ''q1'', cot_answer = None, question = ''q1''\<rparr>,
              \<lparr>instruction = ''q2'', cot_answer = None, question = ''q2''\<rparr>]))
          = Inr answers
        \<and> length answers = 3 \<and> answers ! 1 = None)"
proof -
  let ?S = "\<lambda>(k :: nat) (req :: chat_request).
      if k = 1 then Inl (RemoteError ''rate limit'')
      else Inr \<lparr>choices = [\<lparr>message_content = Some ''so <ANSWER>: 4''\<rparr>]\<rparr>"
  let ?D = "Some ''gpt-4o-mini''"
  let ?T = "[\<lparr>instruction = ''q0'', cot_answer = None, question = ''q0''\<rparr>,
             \<lparr>instruction = ''q1'', cot_answer = None, question = ''q1''\<rparr>,
             \<lparr>instruction = ''q2'', cot_answer = None, question = ''q2''\<rparr>]"
  let ?R = "fst (progress_apply ?S 0 ?D ?T)"
  from inference_failure_is_per_row
      [where service = ?S and deployment = ?D and test_df = ?T, THEN conjunct2, THEN conjunct1]
  obtain answers where a: "series_apply extract_final_answer ?R = Inr answers"
    and l: "length answers = length ?T"
    and rows: "\<forall>i<length ?T.
        extract_final_answer (?R ! i) = Inr (answers ! i)
        \<and> (\<forall>e'. ?S i (completion_request (instruction (?T ! i)) ?D) = Inl e' \<longrightarrow>
               ?R ! i = None \<and> answers ! i = None)
        \<and> (\<forall>resp ch chs. ?S i (completion_request (instruction (?T ! i)) ?D) = Inr resp
               \<and> choices resp = ch # chs \<longrightarrow> ?R ! i = message_content ch)"
    unfolding Let_def by blast
  have one: "(1::nat) < length ?T" and two: "(2::nat) < length ?T"
    by simp_all
  have fail: "?S 1 (completion_request (instruction (?T ! 1)) ?D) = Inl (RemoteError ''rate limit'')"
    by simp
  have ok: "?S 2 (completion_request (instruction (?T ! 2)) ?D)
        = Inr \<lparr>choices = [\<lparr>message_content = Some ''so <ANSWER>: 4''\<rparr>]\<rparr>
      \<and> choices \<lparr>choices = [\<lparr>message_content = Some ''so <ANSWER>: 4''\<rparr>]\<rparr>
        = \<lparr>message_content = Some ''so <ANSWER>: 4''\<rparr> # []"
    by simp
  from rows one fail have r1: "?R ! 1 = None \<and> answers ! 1 = None"
    by blast
  from rows two ok have r2: "?R ! 2 = message_content \<lparr>message_content = Some ''so <ANSWER>: 4''\<rparr>"
    by blast
  show ?thesis
    using a l r1 r2 by simp
qed

section \<open>The evaluation tables\<close>

lemma zip_columns:
  "zip xs (zip (map g xs) (zip (map c xs) (zip (map b xs) (map f xs))))
     = map (\<lambda>x. (x, g x, c x, b x, f x)) xs"
  by (induction xs) simp_all

text \<open>Cleaning never raises; each cleaned row is computed from its own row.\<close>

lemma clean_answers_rows:
  "clean_answers test_df =
     Inr (map (\<lambda>x. \<lparr>row_question = question x,
                      gold_final_answer = projr (extract_final_answer (cot_answer x)),
                      row_context = projr (extract_context (instruction x)),
                      baseline_final_answer =
                        projr (extract_final_answer (baseline_model_response x)),
                      finetuned_final_answer =
                        projr (extract_final_answer (finetuned_model_response x))\<rparr>)
            test_df)"
  by (simp add: clean_answers_def series_apply_final_answers series_apply_contexts
        o_def zip_columns)

text \<open>
  Claim C7, as the code has it. In both evaluation tables the \<open>contexts\<close> field of a row
  is the one-element list holding the context extracted from the instruction of the
  row when that context is not empty, and the empty list when the context is the empty
  string.
\<close>

theorem eval_tables_wrap_nonempty_context:
  "\<exists>cleaned. clean_answers test_df = Inr cleaned \<and> length cleaned = length test_df
     \<and> (\<forall>i<length test_df.
           extract_context (instruction (test_df ! i)) = Inr (row_context (cleaned ! i))
           \<and> contexts (baseline_df cleaned ! i)
               = (if row_context (cleaned ! i) = [] then []
                  else [row_context (cleaned ! i)])
           \<and> contexts (finetuned_df cleaned ! i)
               = (if row_context (cleaned ! i) = [] then []
                  else [row_context (cleaned ! i)]))"
  by (simp add: clean_answers_rows baseline_df_def finetuned_df_def wrap_context_def
        truthy_str_def extract_context_total[symmetric])

theorem eval_tables_wrap_nonempty_context_witness:
  "\<exists>cleaned.
     clean_answers
       [\<lparr>instruction = ''doc1'' @ NEWLINE @ ''What is X?'', cot_answer = Some ''<ANSWER>: 1'',
         question = ''What is X?'', baseline_model_response = Some ''1'',
         finetuned_model_response = None\<rparr>] = Inr cleaned
     \<and> row_context (cleaned ! 0) = ''doc1''
     \<and> contexts (baseline_df cleaned ! 0) = [''doc1'']
     \<and> contexts (finetuned_df cleaned ! 0) = [''doc1'']"
proof -
  let ?T = "[\<lparr>instruction = ''doc1'' @ NEWLINE @ ''What is X?'', cot_answer = Some ''<ANSWER>: 1'',
         question = ''What is X?'', baseline_model_response = Some ''1'',
         finetuned_model_response = None\<rparr>]"
  from eval_tables_wrap_nonempty_context[of ?T]
  obtain cleaned where c: "clean_answers ?T = Inr cleaned"
    and rows: "\<forall>i<length ?T.
           extract_context (instruction (?T ! i)) = Inr (row_context (cleaned ! i))
           \<and> contexts (baseline_df cleaned ! i)
               = (if row_context (cleaned ! i) = [] then []
                  else [row_context (cleaned ! i)])
           \<and> contexts (finetuned_df cleaned ! i)
               = (if row_context (cleaned ! i) = [] then []
                  else [row_context (cleaned ! i)])"
    by blast
  have "extract_context (''doc1'' @ NEWLINE @ ''What is X?'') = Inr ''doc1''"
    by (simp add: extract_context_def str_split_def split_all_def slice_butlast_def NEWLINE_def)
  then have "row_context (cleaned ! 0) = ''doc1''"
    using rows by simp
  then show ?thesis
    using c rows by auto
qed

text \<open>
  Claim C7 as stated, a one-element list in every row, fails on a row whose instruction
  is a single line: its context is the empty string and its \<open>contexts\<close> field is the
  empty list.
\<close>

theorem eval_tables_single_element_counterexample:
  "clean_answers
     [\<lparr>instruction = ''What is X?'', cot_answer = Some ''<ANSWER>: 1'',
       question = ''What is X?'', baseline_model_response = Some ''1'',
       finetuned_model_response = None\<rparr>]
     = Inr [\<lparr>row_question = ''What is X?'', gold_final_answer = Some ''1'', row_context = [],
             baseline_final_answer = Some ''1'', finetuned_final_answer = None\<rparr>]
   \<and> contexts (baseline_df
        [\<lparr>row_question = ''What is X?'', gold_final_answer = Some ''1'', row_context = [],
          baseline_final_answer = Some ''1'', finetuned_final_answer = None\<rparr>] ! 0) = []
   \<and> contexts (baseline_df
        [\<lparr>row_question = ''What is X?'', gold_final_answer = Some ''1'', row_context = [],
          baseline_final_answer = Some ''1'', finetuned_final_answer = None\<rparr>] ! 0)
       \<noteq> [row_context
            \<lparr>row_question = ''What is X?'', gold_final_answer = Some ''1'', row_context = [],
             baseline_final_answer = Some ''1'', finetuned_final_answer = None\<rparr>]"
  by (simp add: clean_answers_def extract_final_answer_def extract_context_def str_split_def
        split_all_def index_last_def slice_butlast_def NEWLINE_def ANSWER_MARKER_def
        baseline_df_def wrap_context_def truthy_str_def)

end
